theory Spec2Isabelle
  imports Main "HOL-Library.Sublist"
begin

section \<open>Python strings\<close>

text \<open>
  A Python \<open>str\<close> is modelled as a \<^typ>\<open>string\<close>, one \<^typ>\<open>char\<close> per code point,
  so the model covers the code points U+0000 to U+00FF.  The substring test
  \<open>sep in s\<close> is \<^const>\<open>sublist\<close>, and \<open>s.startswith(sep)\<close> is \<^const>\<open>prefix\<close>.
\<close>

definition nl :: char where
  "nl = CHR 0x0A"

definition tab :: char where
  "tab = CHR 0x09"

definition dquote :: char where
  "dquote = CHR 0x22"

definition py_isspace :: "char \<Rightarrow> bool" where
  \<comment> \<open>\<open>str.isspace\<close> on one character, for the code points below 256\<close>
  "py_isspace c \<longleftrightarrow> c \<in> set [CHR 0x09, CHR 0x0A, CHR 0x0B, CHR 0x0C, CHR 0x0D,
     CHR 0x1C, CHR 0x1D, CHR 0x1E, CHR 0x1F, CHR 0x20, CHR 0x85, CHR 0xA0]"

definition strip_where :: "(char \<Rightarrow> bool) \<Rightarrow> string \<Rightarrow> string" where
  \<comment> \<open>remove the longest run of characters satisfying \<open>P\<close> from both ends\<close>
  "strip_where P s = rev (dropWhile P (rev (dropWhile P s)))"

definition strip :: "string \<Rightarrow> string" where
  \<comment> \<open>\<open>s.strip()\<close>\<close>
  "strip s = strip_where py_isspace s"

definition strip_chars :: "string \<Rightarrow> string \<Rightarrow> string" where
  \<comment> \<open>\<open>s.strip(chars)\<close>\<close>
  "strip_chars chars s = strip_where (\<lambda>c. c \<in> set chars) s"

fun split_from :: "string \<Rightarrow> string \<Rightarrow> string \<Rightarrow> string list" where
  \<comment> \<open>the scan of \<open>s.split(sep)\<close>: \<open>cur\<close> holds, reversed, the piece read so far\<close>
  "split_from sep cur [] = [rev cur]"
| "split_from sep cur (c # cs) =
     (if sep \<noteq> [] \<and> prefix sep (c # cs)
      then rev cur # split_from sep [] (drop (length sep) (c # cs))
      else split_from sep (c # cur) cs)"

section \<open>Exceptions\<close>

text \<open>
  A raised exception is a value: its class and its message.  \<open>OtherException\<close> stands for
  any other class derived from \<open>Exception\<close>, \<open>NonException\<close> for the classes derived from
  \<open>BaseException\<close> only (\<open>KeyboardInterrupt\<close>, \<open>SystemExit\<close>), which
  \<open>except Exception\<close> does not catch.
\<close>

datatype py_error =
    ValueError string
  | IndexError string
  | NotImplementedError string
  | OtherException string string
  | NonException string string

fun is_Exception :: "py_error \<Rightarrow> bool" where
  "is_Exception (NonException cls msg) = False"
| "is_Exception e = True"

definition str_split :: "string \<Rightarrow> string \<Rightarrow> py_error + string list" where
  \<comment> \<open>\<open>s.split(sep)\<close>; an empty separator raises\<close>
  "str_split s sep = (if sep = [] then Inl (ValueError ''empty separator'')
                      else Inr (split_from sep [] s))"

definition last_item :: "'a list \<Rightarrow> py_error + 'a" where
  \<comment> \<open>\<open>xs[-1]\<close>\<close>
  "last_item xs = (case xs of [] \<Rightarrow> Inl (IndexError ''list index out of range'')
                   | _ \<Rightarrow> Inr (last xs))"

section \<open>Regular expressions\<close>

text \<open>
  The fragment of Python's \<open>re\<close> that the bot uses: a pattern is a sequence of literals
  and starred character classes; a star is greedy (\<open>*\<close>) or lazy (\<open>*?\<close>) and is a
  capturing group or not.  Matching is by backtracking, as in \<open>re\<close>: a lazy star tries
  the shortest run first, a greedy star the longest, and the first way that lets the rest
  of the pattern match is taken.
\<close>

datatype item =
    Lit string
  | Star (greedy: bool) (capturing: bool) "char \<Rightarrow> bool"

fun first_some :: "('a \<Rightarrow> 'b option) \<Rightarrow> 'a list \<Rightarrow> 'b option" where
  "first_some f [] = None"
| "first_some f (x # xs) = (case f x of Some y \<Rightarrow> Some y | None \<Rightarrow> first_some f xs)"

definition run_lengths :: "bool \<Rightarrow> nat \<Rightarrow> nat list" where
  \<comment> \<open>the run lengths a star tries, in order, when at most \<open>n\<close> characters are in its class\<close>
  "run_lengths g n = (if g then rev [0..<Suc n] else [0..<Suc n])"

fun match_items :: "item list \<Rightarrow> string \<Rightarrow> string list option" where
  \<comment> \<open>match the pattern at the start of \<open>s\<close>; the result lists the captured groups\<close>
  "match_items [] s = Some []"
| "match_items (Lit l # its) s =
     (if prefix l s then match_items its (drop (length l) s) else None)"
| "match_items (Star g cap cls # its) s =
     first_some
       (\<lambda>k. case match_items its (drop k s) of
              None \<Rightarrow> None
            | Some groups \<Rightarrow> Some (if cap then take k s # groups else groups))
       (run_lengths g (length (takeWhile cls s)))"

fun re_search :: "item list \<Rightarrow> string \<Rightarrow> string list option" where
  \<comment> \<open>\<open>re.search\<close>: the match at the leftmost position that has one\<close>
  "re_search p s =
     (case match_items p s of
        Some groups \<Rightarrow> Some groups
      | None \<Rightarrow> (case s of [] \<Rightarrow> None | c # cs \<Rightarrow> re_search p cs))"

section \<open>The chat bot\<close>

definition dot :: "char \<Rightarrow> bool" where
  \<comment> \<open>the class \<open>.\<close>: any character but a newline\<close>
  "dot c \<longleftrightarrow> c \<noteq> nl"

definition action_regex :: "item list" where
  \<comment> \<open>\<open>r"Action: (.*?)[\\n]*Action Input: (.*)"\<close>\<close>
  "action_regex =
     [Lit ''Action: '', Star False True dot, Star True False (\<lambda>c. c = nl),
      Lit ''Action Input: '', Star True True dot]"

definition extract_tool_and_input :: "string \<Rightarrow> string \<Rightarrow> py_error + string \<times> string" where
  \<comment> \<open>\<open>ChatBot._extract_tool_and_input\<close>; the first argument is \<open>self.ai_prefix\<close>\<close>
  "extract_tool_and_input ai_prefix llm_output =
     (if sublist (ai_prefix @ '':'') llm_output then
        (case str_split llm_output (ai_prefix @ '':'') of
           Inl e \<Rightarrow> Inl e
         | Inr parts \<Rightarrow>
             (case last_item parts of
                Inl e \<Rightarrow> Inl e
              | Inr t \<Rightarrow> Inr (ai_prefix, strip t)))
      else
        (case re_search action_regex llm_output of
           None \<Rightarrow>
             Inl (ValueError (''Could not parse LLM output: '' @ [CHR 0x60] @ llm_output @ [CHR 0x60]))
         | Some groups \<Rightarrow>
             (let action = groups ! 0;
                  action_input = groups ! 1
              in Inr (strip action, strip_chars [dquote] (strip_chars '' '' action_input)))))"

definition claimed_action_input :: "string \<Rightarrow> string" where
  \<comment> \<open>not from the source: the tool input as the specification words it, \<open>Y\<close> stripped of
      surrounding quote characters and whitespace\<close>
  "claimed_action_input Y = strip_where (\<lambda>c. py_isspace c \<or> c = dquote) Y"

section \<open>The tools\<close>

text \<open>
  The search API client and the HTTP client are external services: a call either returns
  or raises.  \<open>str\<close> and \<open>repr\<close> are the built-ins, taken as parameters.
\<close>

record 'r GoogleSearchAPIWrapper =
  api_run :: "string \<Rightarrow> py_error + string"
  api_results :: "string \<Rightarrow> int \<Rightarrow> py_error + 'r list"

definition GoogleSearch_run :: "'r GoogleSearchAPIWrapper \<Rightarrow> string \<Rightarrow> py_error + string" where
  \<comment> \<open>\<open>GoogleSearch._run\<close>; the first argument is \<open>self.api_wrapper\<close>\<close>
  "GoogleSearch_run wrapper query = api_run wrapper query"

definition GoogleSearch_arun :: "string \<Rightarrow> py_error + string" where
  \<comment> \<open>the body of the coroutine \<open>GoogleSearch._arun\<close>\<close>
  "GoogleSearch_arun query = Inl (NotImplementedError ''GoogleSearchRun does not support async'')"

record 'r GoogleSearchResults =
  num_results :: int
  api_wrapper :: "'r GoogleSearchAPIWrapper"

definition GoogleSearchResults_init :: "'r GoogleSearchAPIWrapper \<Rightarrow> 'r GoogleSearchResults" where
  \<comment> \<open>\<open>GoogleSearchResults(api_wrapper=w)\<close>: \<open>num_results\<close> takes its default\<close>
  "GoogleSearchResults_init w = \<lparr>num_results = 3, api_wrapper = w\<rparr>"

definition GoogleSearchResults_run ::
  "('r list \<Rightarrow> string) \<Rightarrow> 'r GoogleSearchResults \<Rightarrow> string \<Rightarrow> py_error + string" where
  \<comment> \<open>\<open>GoogleSearchResults._run\<close>; the first argument is \<open>str\<close>\<close>
  "GoogleSearchResults_run str_of self query =
     (case api_results (api_wrapper self) query (num_results self) of
        Inl e \<Rightarrow> Inl e
      | Inr rs \<Rightarrow> Inr (str_of rs))"

definition GoogleSearchResults_arun :: "string \<Rightarrow> py_error + string" where
  \<comment> \<open>the body of the coroutine \<open>GoogleSearchResults._arun\<close>\<close>
  "GoogleSearchResults_arun query =
     Inl (NotImplementedError ''GoogleSearchRun does not support async'')"

datatype log_record = Debug string | Error string

definition browser_except ::
  "(py_error \<Rightarrow> string) \<Rightarrow> (py_error \<Rightarrow> string) \<Rightarrow> py_error
     \<Rightarrow> (py_error + string) \<times> log_record list" where
  \<comment> \<open>the clause \<open>except Exception as e\<close> of \<open>BrowserTool._run\<close>: an exception of another
      kind passes through\<close>
  "browser_except str_of repr_of e =
     (if is_Exception e then (Inr (repr_of e), [Error (''[browser] '' @ str_of e)])
      else (Inl e, []))"

definition BrowserTool_run ::
  "(py_error \<Rightarrow> string) \<Rightarrow> (py_error \<Rightarrow> string) \<Rightarrow> (string \<Rightarrow> py_error + string)
     \<Rightarrow> (string \<Rightarrow> py_error + string) \<Rightarrow> string \<Rightarrow> (py_error + string) \<times> log_record list" where
  \<comment> \<open>\<open>BrowserTool._run\<close>, given \<open>str\<close>, \<open>repr\<close>, \<open>self.requests_wrapper.get\<close> and
      \<open>filter_text\<close>; the result comes with the records written to \<open>LOG\<close>\<close>
  "BrowserTool_run str_of repr_of get filter_text url =
     (case get url of
        Inl e \<Rightarrow> browser_except str_of repr_of e
      | Inr html \<Rightarrow>
          (case filter_text html of
             Inl e \<Rightarrow> browser_except str_of repr_of e
           | Inr content \<Rightarrow> (Inr content, [Debug (''[browser] output: '' @ content)])))"

definition BrowserTool_arun :: "string \<Rightarrow> py_error + string" where
  \<comment> \<open>the body of the coroutine \<open>BrowserTool._arun\<close>\<close>
  "BrowserTool_arun url = Inl (NotImplementedError ''not support run this tool in async'')"

section \<open>Properties of the string functions\<close>

lemma split_from_nonempty: "split_from sep cur s \<noteq> []"
  by (induction sep cur s rule: split_from.induct) auto

lemma split_from_no_sep:
  "\<not> sublist sep s \<Longrightarrow> split_from sep cur s = [rev cur @ s]"
proof (induction sep cur s rule: split_from.induct)
  case (1 sep cur)
  then show ?case by simp
next
  case (2 sep cur c cs)
  from "2.prems" have np: "\<not> prefix sep (c # cs)" and ns: "\<not> sublist sep cs"
    by (auto simp: sublist_Cons_right)
  with "2.IH"(2) show ?case by simp
qed

lemma last_split_from:
  "sep \<noteq> [] \<Longrightarrow> sublist sep s \<Longrightarrow>
   \<exists>pre suf. s = pre @ sep @ suf \<and> \<not> sublist sep suf \<and> last (split_from sep cur s) = suf"
proof (induction sep cur s rule: split_from.induct)
  case (1 sep cur)
  then show ?case by simp
next
  case (2 sep cur c cs)
  show ?case
  proof (cases "prefix sep (c # cs)")
    case True
    define r where "r = drop (length sep) (c # cs)"
    from True obtain zs where zs: "c # cs = sep @ zs" by (auto elim: prefixE)
    then have "r = zs" unfolding r_def by simp
    with zs have s_eq: "c # cs = sep @ r" by simp
    have l: "last (split_from sep cur (c # cs)) = last (split_from sep [] r)"
      using True "2.prems"(1) split_from_nonempty[of sep "[]" r] by (simp add: r_def)
    show ?thesis
    proof (cases "sublist sep r")
      case True
      have "\<exists>pre suf. r = pre @ sep @ suf \<and> \<not> sublist sep suf \<and>
        last (split_from sep [] r) = suf"
        unfolding r_def
        apply (rule "2.IH"(1))
        using \<open>prefix sep (c # cs)\<close> "2.prems"(1) True  by (simp_all add: r_def)
      then obtain pre suf where "r = pre @ sep @ suf" "\<not> sublist sep suf"
        "last (split_from sep [] r) = suf"
        by blast
      with s_eq l have "c # cs = (sep @ pre) @ sep @ suf \<and> \<not> sublist sep suf
          \<and> last (split_from sep cur (c # cs)) = suf" by simp
      then show ?thesis by blast
    next
      case False
      with l have "last (split_from sep cur (c # cs)) = r"
        by (simp add: split_from_no_sep)
      with s_eq False have "c # cs = [] @ sep @ r \<and> \<not> sublist sep r
          \<and> last (split_from sep cur (c # cs)) = r" by simp
      then show ?thesis by blast
    qed
  next
    case False
    with "2.prems" have sub: "sublist sep cs" by (simp add: sublist_Cons_right)
    from "2.IH"(2) False "2.prems"(1) sub
    obtain pre suf where "cs = pre @ sep @ suf" "\<not> sublist sep suf"
      "last (split_from sep (c # cur) cs) = suf" by blast
    with False have "c # cs = (c # pre) @ sep @ suf \<and> \<not> sublist sep suf
        \<and> last (split_from sep cur (c # cs)) = suf" by simp
    then show ?thesis by blast
  qed
qed

lemma dropWhile_rev_split:
  "dropWhile P s = rev (dropWhile P (rev (dropWhile P s))) @ rev (takeWhile P (rev (dropWhile P s)))"
proof -
  let ?m = "dropWhile P s"
  have "rev (dropWhile P (rev ?m)) @ rev (takeWhile P (rev ?m))
      = rev (takeWhile P (rev ?m) @ dropWhile P (rev ?m))"
    by (simp only: rev_append)
  also have "\<dots> = rev (rev ?m)" by (simp only: takeWhile_dropWhile_id)
  also have "\<dots> = ?m" by (simp only: rev_rev_ident)
  finally show ?thesis by (rule sym)
qed

lemma strip_where_decomp:
  "\<exists>l r. s = l @ strip_where P s @ r \<and> (\<forall>c \<in> set l. P c) \<and> (\<forall>c \<in> set r. P c)"
proof -
  let ?m = "dropWhile P s"
  let ?r = "takeWhile P (rev ?m)"
  have "takeWhile P s @ ?m = s" by (rule takeWhile_dropWhile_id)
  then have 3: "s = takeWhile P s @ strip_where P s @ rev ?r"
    unfolding strip_where_def using dropWhile_rev_split[of P s] by metis
  have 4: "\<forall>c \<in> set (takeWhile P s). P c" by (auto dest: set_takeWhileD)
  have 5: "\<forall>c \<in> set (rev ?r). P c" by (auto dest: set_takeWhileD)
  from 3 4 5 show ?thesis by blast
qed

lemma strip_where_ends:
  assumes ne: "strip_where P s \<noteq> []"
  shows "\<not> P (hd (strip_where P s)) \<and> \<not> P (last (strip_where P s))"
proof -
  let ?m = "dropWhile P s"
  let ?t = "dropWhile P (rev ?m)"
  let ?r = "takeWhile P (rev ?m)"
  from ne have tne: "?t \<noteq> []" by (simp add: strip_where_def)
  then have a: "\<not> P (hd ?t)" by (rule hd_dropWhile)
  have l: "last (strip_where P s) = hd ?t" using tne by (simp add: strip_where_def last_rev)
  have mne: "?m \<noteq> []"
  proof
    assume "?m = []"
    then have "?t = []" by (simp only: rev.simps dropWhile.simps)
    with tne show False by simp
  qed
  then have b: "\<not> P (hd ?m)" by (rule hd_dropWhile)
  have "hd ?m = hd (rev ?t @ rev ?r)" using dropWhile_rev_split[of P s] by simp
  also have "\<dots> = hd (rev ?t)" using tne by simp
  finally have "hd ?m = hd (strip_where P s)" by (simp add: strip_where_def)
  with b l a show ?thesis by simp
qed

lemma last_item_nonempty: "xs \<noteq> [] \<Longrightarrow> last_item xs = Inr (last xs)"
  by (cases xs) (simp_all add: last_item_def)

lemma extract_final_answer_eq:
  assumes "sublist (ai_prefix @ '':'') llm_output"
  shows "extract_tool_and_input ai_prefix llm_output =
     Inr (ai_prefix, strip (last (split_from (ai_prefix @ '':'') [] llm_output)))"
proof -
  have 1: "str_split llm_output (ai_prefix @ '':'') =
      Inr (split_from (ai_prefix @ '':'') [] llm_output)"
    by (simp add: str_split_def)
  have 2: "last_item (split_from (ai_prefix @ '':'') [] llm_output) =
      Inr (last (split_from (ai_prefix @ '':'') [] llm_output))"
    by (rule last_item_nonempty) (rule split_from_nonempty)
  show ?thesis
    unfolding extract_tool_and_input_def if_P[OF assms] by (simp only: 1 2 sum.case)
qed


section \<open>Properties of the matcher\<close>

lemma first_some_None_iff: "first_some f xs = None \<longleftrightarrow> (\<forall>x \<in> set xs. f x = None)"
  by (induction xs) (auto split: option.splits)

lemma first_some_Some: "first_some f xs = Some y \<Longrightarrow> \<exists>x \<in> set xs. f x = Some y"
proof (induction xs)
  case Nil
  then show ?case by simp
next
  case (Cons a xs)
  then show ?case by (cases "f a") simp_all
qed

lemma first_some_skip:
  "(\<forall>x \<in> set xs. f x = None) \<Longrightarrow> first_some f (xs @ ys) = first_some f ys"
  by (induction xs) auto

lemma first_some_at:
  assumes "j \<le> n" and "f j = Some y" and "\<forall>k < j. f k = None"
  shows "first_some f [0..<Suc n] = Some y"
proof -
  have "[0..<j + (Suc n - j)] = [0..<j] @ [j..<j + (Suc n - j)]"
    by (rule upt_add_eq_append) simp
  moreover have "j + (Suc n - j) = Suc n" using \<open>j \<le> n\<close> by simp
  moreover have "[j..<Suc n] = j # [Suc j..<Suc n]"
    by (rule upt_conv_Cons) (use \<open>j \<le> n\<close> in simp)
  ultimately have "[0..<Suc n] = [0..<j] @ j # [Suc j..<Suc n]" by simp
  moreover have "\<forall>x \<in> set [0..<j]. f x = None" using assms(3) by simp
  ultimately have "first_some f [0..<Suc n] = first_some f (j # [Suc j..<Suc n])"
    by (simp only: first_some_skip)
  then show ?thesis using assms(2) by simp
qed

lemma prefix_border:
  assumes "prefix l (r @ c # rest)" and "c \<notin> set (tl l)" and "r \<noteq> []"
  shows "prefix l r"
proof -
  from assms(1) consider "prefix l r" | us where "l = r @ us" "prefix us (c # rest)"
    by (auto simp: prefix_append)
  then show ?thesis
  proof cases
    case 1
    then show ?thesis .
  next
    case 2
    show ?thesis
    proof (cases us)
      case Nil
      with 2 show ?thesis by simp
    next
      case (Cons u us')
      with 2 have "u = c" by simp
      with 2 Cons have "l = r @ c # us'" by simp
      with \<open>r \<noteq> []\<close> have "c \<in> set (tl l)" by (cases r) auto
      with assms(2) show ?thesis by simp
    qed
  qed
qed

lemma take_length_takeWhile: "take (length (takeWhile P xs)) xs = takeWhile P xs"
  by (induction xs) auto

lemma drop_length_takeWhile: "drop (length (takeWhile P xs)) xs = dropWhile P xs"
  by (induction xs) auto

lemma match_last_group: "match_items [Star True True dot] w = Some [takeWhile dot w]"
  by (simp add: run_lengths_def take_length_takeWhile)

lemma match_lit_group:
  "match_items [Lit l, Star True True dot] x =
     (if prefix l x then Some [takeWhile dot (drop (length l) x)] else None)"
  by (simp only: match_items.simps(2) match_last_group)

lemma hd_drop_takeWhile:
  assumes "k < length (takeWhile P v)"
  shows "drop k v \<noteq> [] \<and> P (hd (drop k v))"
proof -
  have le: "length (takeWhile P v) \<le> length v" by (rule length_takeWhile_le)
  with assms have kv: "k < length v" by simp
  then have "hd (drop k v) = v ! k" by (rule hd_drop_conv_nth)
  also have "\<dots> = takeWhile P v ! k" using assms by (rule takeWhile_nth[symmetric])
  finally have "hd (drop k v) \<in> set (takeWhile P v)" using assms by simp
  then have "P (hd (drop k v))" by (rule set_takeWhileD[THEN conjunct2])
  with kv show ?thesis by simp
qed

lemma match_tail:
  "match_items [Star True False (\<lambda>c. c = nl), Lit ''Action Input: '', Star True True dot] v =
     (if prefix ''Action Input: '' (dropWhile (\<lambda>c. c = nl) v)
      then Some [takeWhile dot (drop (length ''Action Input: '') (dropWhile (\<lambda>c. c = nl) v))] else None)"
proof -
  let ?P = "\<lambda>c. c = nl"
  let ?n = "length (takeWhile ?P v)"
  let ?f = "\<lambda>k. case match_items [Lit ''Action Input: '', Star True True dot] (drop k v) of
                 None \<Rightarrow> None | Some groups \<Rightarrow> Some (if False then take k v # groups else groups)"
  have f_eq: "?f k = (if prefix ''Action Input: '' (drop k v)
                      then Some [takeWhile dot (drop (length ''Action Input: '') (drop k v))] else None)" for k
    by (cases "prefix ''Action Input: '' (drop k v)")
       (simp_all only: match_lit_group if_True if_False option.case)
  have unfold: "match_items [Star True False ?P, Lit ''Action Input: '', Star True True dot] v
      = first_some ?f (?n # rev [0..<?n])"
    by (simp only: match_items.simps(3) run_lengths_def if_True upt_Suc_append[OF le0] rev_append
          rev.simps append_Nil append_Cons)
  show ?thesis
  proof (cases "prefix ''Action Input: '' (dropWhile ?P v)")
    case True
    then have "?f ?n = Some [takeWhile dot (drop (length ''Action Input: '') (dropWhile ?P v))]"
      using f_eq[of ?n] by (simp only: drop_length_takeWhile if_True)
    then have "first_some ?f (?n # rev [0..<?n]) = Some [takeWhile dot (drop (length ''Action Input: '') (dropWhile ?P v))]"
      by (simp only: first_some.simps option.case)
    with unfold True show ?thesis by (simp only: if_True)
  next
    case False
    have "?f k = None" if "k \<in> set (?n # rev [0..<?n])" for k
    proof (cases "k = ?n")
      case True
      with False show ?thesis using f_eq[of ?n] by (simp only: drop_length_takeWhile if_False)
    next
      case False
      with that have "k < ?n" by simp
      then have "drop k v \<noteq> [] \<and> hd (drop k v) = nl" by (rule hd_drop_takeWhile)
      then have "\<not> prefix ''Action Input: '' (drop k v)"
        by (cases "drop k v") (auto simp: nl_def)
      then show ?thesis using f_eq[of k] by (simp only: if_False)
    qed
    then have "first_some ?f (?n # rev [0..<?n]) = None"
      by (simp only: first_some_None_iff) blast
    with unfold False show ?thesis by (simp only: if_False)
  qed
qed

lemma match_action_unfold:
  "match_items action_regex t =
     (if prefix ''Action: '' t
      then first_some
        (\<lambda>k. case match_items
                    [Star True False (\<lambda>c. c = nl), Lit ''Action Input: '', Star True True dot]
                    (drop k (drop (length ''Action: '') t)) of
               None \<Rightarrow> None
             | Some groups \<Rightarrow> Some (take k (drop (length ''Action: '') t) # groups))
        [0..<Suc (length (takeWhile dot (drop (length ''Action: '') t)))]
      else None)"
  by (simp only: action_regex_def match_items.simps(2,3) run_lengths_def if_False if_True)

lemma prefix_imp_sublist_drop:
  assumes "prefix l (drop k X)"
  shows "sublist l X"
proof -
  from assms obtain zs where "drop k X = l @ zs" by (auto elim: prefixE)
  then have "take k X @ l @ zs = X" by (metis append_take_drop_id)
  then show ?thesis by (metis sublist_appendI)
qed

lemma tail_before_block:
  assumes nlX: "nl \<notin> set X" and nosub: "\<not> sublist ''Action Input: '' X" and k: "k < length X"
  shows "match_items [Star True False (\<lambda>c. c = nl), Lit ''Action Input: '', Star True True dot]
           (drop k (X @ replicate n nl @ ''Action Input: '' @ w)) = None"
proof -
  let ?X' = "drop k X"
  let ?rest = "replicate n nl @ ''Action Input: '' @ w"
  from k have ne: "?X' \<noteq> []" by simp
  have d: "drop k (X @ ?rest) = ?X' @ ?rest" using k by simp
  have "hd ?X' \<in> set X" using ne by (metis hd_in_set in_set_dropD)
  with nlX have "hd ?X' \<noteq> nl" by metis
  with ne have dw: "dropWhile (\<lambda>c. c = nl) (?X' @ ?rest) = ?X' @ ?rest"
    by (cases ?X') simp_all
  obtain c rest' where r: "?rest = c # rest'" and c: "c \<notin> set (tl ''Action Input: '')"
  proof (cases n)
    case 0
    have "?rest = CHR ''A'' # (''ction Input: '' @ w)" using 0 by simp
    moreover have "CHR ''A'' \<notin> set (tl ''Action Input: '')" by simp
    ultimately show ?thesis by (rule that)
  next
    case (Suc m)
    have "?rest = nl # (replicate m nl @ ''Action Input: '' @ w)" using Suc by simp
    moreover have "nl \<notin> set (tl ''Action Input: '')" by (simp add: nl_def)
    ultimately show ?thesis by (rule that)
  qed
  have "\<not> prefix ''Action Input: '' (?X' @ ?rest)"
  proof
    assume "prefix ''Action Input: '' (?X' @ ?rest)"
    then have "prefix ''Action Input: '' (?X' @ c # rest')" by (simp only: r)
    then have "prefix ''Action Input: '' ?X'" using c ne by (rule prefix_border)
    then have "sublist ''Action Input: '' X" by (rule prefix_imp_sublist_drop)
    with nosub show False ..
  qed
  then show ?thesis by (simp only: match_tail d dw if_False)
qed

lemma tail_at_block:
  "match_items [Star True False (\<lambda>c. c = nl), Lit ''Action Input: '', Star True True dot]
     (replicate n nl @ ''Action Input: '' @ w) = Some [takeWhile dot w]"
proof -
  have "dropWhile (\<lambda>c. c = nl) (replicate n nl @ ''Action Input: '' @ w)
      = dropWhile (\<lambda>c. c = nl) (''Action Input: '' @ w)"
    by (rule dropWhile_append2) simp
  also have "\<dots> = ''Action Input: '' @ w" by (simp add: nl_def)
  finally have dw: "dropWhile (\<lambda>c. c = nl) (replicate n nl @ ''Action Input: '' @ w)
      = ''Action Input: '' @ w" .
  have p: "prefix ''Action Input: '' (''Action Input: '' @ w)" by simp
  have dr: "drop (length ''Action Input: '') (''Action Input: '' @ w) = w" by simp
  show ?thesis by (simp only: match_tail dw p dr if_True)
qed

lemma match_action_block:
  assumes nlX: "nl \<notin> set X" and nosub: "\<not> sublist ''Action Input: '' X"
  shows "match_items action_regex (''Action: '' @ X @ replicate n nl @ ''Action Input: '' @ w)
           = Some [X, takeWhile dot w]"
proof -
  let ?u = "X @ replicate n nl @ ''Action Input: '' @ w"
  let ?f = "\<lambda>k. case match_items
                    [Star True False (\<lambda>c. c = nl), Lit ''Action Input: '', Star True True dot]
                    (drop k ?u) of
               None \<Rightarrow> None
             | Some groups \<Rightarrow> Some (take k ?u # groups)"
  have p: "prefix ''Action: '' (''Action: '' @ ?u)" by simp
  have dr: "drop (length ''Action: '') (''Action: '' @ ?u) = ?u" by simp
  have "takeWhile dot ?u = X @ takeWhile dot (replicate n nl @ ''Action Input: '' @ w)"
    by (rule takeWhile_append2) (use nlX in \<open>auto simp: dot_def\<close>)
  then have le: "length X \<le> length (takeWhile dot ?u)" by simp
  have "drop (length X) ?u = replicate n nl @ ''Action Input: '' @ w" by simp
  moreover have "take (length X) ?u = X" by simp
  ultimately have hit: "?f (length X) = Some [X, takeWhile dot w]"
    by (simp only: tail_at_block option.case)
  have miss: "\<forall>k < length X. ?f k = None"
  proof (intro allI impI)
    fix k assume "k < length X"
    then have "match_items
        [Star True False (\<lambda>c. c = nl), Lit ''Action Input: '', Star True True dot]
        (drop k ?u) = None"
      by (rule tail_before_block[OF nlX nosub])
    then show "?f k = None" by (simp only: option.case)
  qed
  have "first_some ?f [0..<Suc (length (takeWhile dot ?u))] = Some [X, takeWhile dot w]"
    using le hit miss by (rule first_some_at)
  then show ?thesis by (simp only: match_action_unfold p dr if_True)
qed

lemma re_search_hit: "match_items p t = Some g \<Longrightarrow> re_search p t = Some g"
  by (subst re_search.simps) (simp only: option.case)

lemma re_search_miss: "match_items p (c # cs) = None \<Longrightarrow> re_search p (c # cs) = re_search p cs"
  by (subst re_search.simps) (simp only: option.case list.case)

lemma re_search_skip:
  assumes "\<And>q r. pre = q @ r \<Longrightarrow> r \<noteq> [] \<Longrightarrow> match_items p (r @ t) = None"
  shows "re_search p (pre @ t) = re_search p t"
  using assms
proof (induction pre)
  case Nil
  then show ?case by simp
next
  case (Cons c pre)
  have "match_items p ((c # pre) @ t) = None"
    by (rule Cons.prems[of "[]"]) simp_all
  then have "re_search p ((c # pre) @ t) = re_search p (pre @ t)"
    by (simp only: append_Cons re_search_miss)
  also have "\<dots> = re_search p t"
  proof (rule Cons.IH)
    fix q r assume "pre = q @ r" "r \<noteq> []"
    then show "match_items p (r @ t) = None"
      using Cons.prems[of "c # q" r] by simp
  qed
  finally show ?case .
qed

lemma re_search_Some:
  "re_search p s = Some g \<Longrightarrow> \<exists>pre t. s = pre @ t \<and> match_items p t = Some g"
proof (induction s)
  case Nil
  then have "match_items p [] = Some g"
    by (subst (asm) re_search.simps) (simp split: option.splits)
  then show ?case by blast
next
  case (Cons c cs)
  show ?case
  proof (cases "match_items p (c # cs)")
    case None
    with Cons.prems have "re_search p cs = Some g" by (simp only: re_search_miss)
    with Cons.IH obtain pre t where "cs = pre @ t" "match_items p t = Some g" by blast
    then have "c # cs = (c # pre) @ t \<and> match_items p t = Some g" by simp
    then show ?thesis by blast
  next
    case (Some g')
    with Cons.prems have "g' = g" by (simp add: re_search_hit)
    with Some have "c # cs = [] @ (c # cs) \<and> match_items p (c # cs) = Some g" by simp
    then show ?thesis by blast
  qed
qed

lemma re_search_exists:
  "match_items p t \<noteq> None \<Longrightarrow> re_search p (pre @ t) \<noteq> None"
proof (induction pre)
  case Nil
  then obtain g where "match_items p t = Some g" by blast
  then show ?case by (simp add: re_search_hit)
next
  case (Cons c pre)
  show ?case
  proof (cases "match_items p ((c # pre) @ t)")
    case None
    then have "re_search p ((c # pre) @ t) = re_search p (pre @ t)"
      by (simp only: append_Cons re_search_miss)
    with Cons show ?thesis by simp
  next
    case (Some g)
    then show ?thesis by (simp add: re_search_hit)
  qed
qed

lemma no_match_before:
  assumes nosub: "\<not> sublist ''Action: '' pre" and "pre = q @ r" and "r \<noteq> []"
  shows "match_items action_regex (r @ ''Action: '' @ rest) = None"
proof -
  have "\<not> prefix ''Action: '' (r @ ''Action: '' @ rest)"
  proof
    assume "prefix ''Action: '' (r @ ''Action: '' @ rest)"
    then have "prefix ''Action: '' (r @ CHR ''A'' # (''ction: '' @ rest))" by simp
    moreover have "CHR ''A'' \<notin> set (tl ''Action: '')" by simp
    ultimately have "prefix ''Action: '' r" using \<open>r \<noteq> []\<close> by (rule prefix_border)
    then obtain zs where "r = ''Action: '' @ zs" by (auto elim: prefixE)
    with \<open>pre = q @ r\<close> have "pre = q @ ''Action: '' @ zs" by simp
    then have "sublist ''Action: '' pre" by (metis sublist_appendI)
    with nosub show False ..
  qed
  then show ?thesis by (simp only: match_action_unfold if_False)
qed

lemma search_action_block:
  assumes "\<not> sublist ''Action: '' pre" and "nl \<notin> set X" and "\<not> sublist ''Action Input: '' X"
  shows "re_search action_regex
           (pre @ ''Action: '' @ X @ replicate n nl @ ''Action Input: '' @ w)
         = Some [X, takeWhile dot w]"
proof -
  let ?t = "''Action: '' @ X @ replicate n nl @ ''Action Input: '' @ w"
  have "re_search action_regex (pre @ ?t) = re_search action_regex ?t"
  proof (rule re_search_skip)
    fix q r assume "pre = q @ r" "r \<noteq> []"
    with assms(1) show "match_items action_regex (r @ ?t) = None" by (rule no_match_before)
  qed
  also have "\<dots> = Some [X, takeWhile dot w]"
    by (rule re_search_hit) (rule match_action_block[OF assms(2,3)])
  finally show ?thesis .
qed

lemma extract_action_eq:
  assumes "\<not> sublist (ai_prefix @ '':'') llm_output"
    and "re_search action_regex llm_output = Some [action, action_input]"
  shows "extract_tool_and_input ai_prefix llm_output =
           Inr (strip action, strip_chars [dquote] (strip_chars '' '' action_input))"
  unfolding extract_tool_and_input_def if_not_P[OF assms(1)] assms(2)
  by (simp add: Let_def)

lemma takeWhile_dot_line:
  assumes "nl \<notin> set Y" and "rest = [] \<or> hd rest = nl"
  shows "takeWhile dot (Y @ rest) = Y"
proof -
  have "takeWhile dot (Y @ rest) = Y @ takeWhile dot rest"
    by (rule takeWhile_append2) (use assms(1) in \<open>auto simp: dot_def\<close>)
  moreover have "takeWhile dot rest = []" using assms(2) by (cases rest) (auto simp: dot_def)
  ultimately show ?thesis by simp
qed

lemma extract_action_block:
  assumes "\<not> sublist (ai_prefix @ '':'')
             (pre @ ''Action: '' @ X @ replicate n nl @ ''Action Input: '' @ Y @ rest)"
    and "\<not> sublist ''Action: '' pre" and "nl \<notin> set X" and "\<not> sublist ''Action Input: '' X"
    and "nl \<notin> set Y" and "rest = [] \<or> hd rest = nl"
  shows "extract_tool_and_input ai_prefix
           (pre @ ''Action: '' @ X @ replicate n nl @ ''Action Input: '' @ Y @ rest)
         = Inr (strip X, strip_chars [dquote] (strip_chars '' '' Y))"
proof -
  have "re_search action_regex
          (pre @ ''Action: '' @ X @ replicate n nl @ ''Action Input: '' @ Y @ rest)
        = Some [X, takeWhile dot (Y @ rest)]"
    using assms(2,3,4) by (rule search_action_block)
  then have "re_search action_regex
          (pre @ ''Action: '' @ X @ replicate n nl @ ''Action Input: '' @ Y @ rest)
        = Some [X, Y]"
    by (simp only: takeWhile_dot_line[OF assms(5,6)])
  with assms(1) show ?thesis by (rule extract_action_eq)
qed

lemma first_some_not_None: "x \<in> set xs \<Longrightarrow> f x \<noteq> None \<Longrightarrow> first_some f xs \<noteq> None"
  by (auto simp: first_some_None_iff)

lemma newlines_then_prefix:
  assumes "prefix l (dropWhile (\<lambda>c. c = nl) v)"
  shows "\<exists>n w. v = replicate n nl @ l @ w"
proof -
  from assms obtain w where w: "dropWhile (\<lambda>c. c = nl) v = l @ w" by (auto elim: prefixE)
  have r: "replicate (length (takeWhile (\<lambda>c. c = nl) v)) nl = takeWhile (\<lambda>c. c = nl) v"
    by (rule replicate_length_same) (auto dest: set_takeWhileD)
  have "takeWhile (\<lambda>c. c = nl) v @ dropWhile (\<lambda>c. c = nl) v = v"
    by (rule takeWhile_dropWhile_id)
  then have "v = replicate (length (takeWhile (\<lambda>c. c = nl) v)) nl @ l @ w"
    by (simp only: r w)
  then show ?thesis by blast
qed

lemma take_within_takeWhile:
  assumes "k \<le> length (takeWhile P u)" and "x \<in> set (take k u)"
  shows "P x"
proof -
  have "take k (takeWhile P u) = take k (take (length (takeWhile P u)) u)"
    by (simp only: take_length_takeWhile)
  also have "\<dots> = take k u" using assms(1) by (simp add: min_def)
  finally have "take k u = take k (takeWhile P u)" by (rule sym)
  with assms(2) have "x \<in> set (takeWhile P u)" by (auto dest: in_set_takeD)
  then show ?thesis by (rule set_takeWhileD[THEN conjunct2])
qed

lemma match_action_Some:
  assumes "match_items action_regex t = Some g"
  shows "\<exists>X n w. t = ''Action: '' @ X @ replicate n nl @ ''Action Input: '' @ w \<and> nl \<notin> set X"
proof -
  define u where "u = drop (length ''Action: '') t"
  define tail where
    "tail = [Star True False (\<lambda>c. c = nl), Lit ''Action Input: '', Star True True dot]"
  let ?N = "length (takeWhile dot u)"
  let ?f = "\<lambda>k. case match_items tail (drop k u) of
               None \<Rightarrow> None | Some groups \<Rightarrow> Some (take k u # groups)"
  have unfold: "match_items action_regex t =
      (if prefix ''Action: '' t then first_some ?f [0..<Suc ?N] else None)"
    unfolding u_def tail_def by (rule match_action_unfold)
  have p: "prefix ''Action: '' t"
  proof (rule ccontr)
    assume "\<not> prefix ''Action: '' t"
    then have "match_items action_regex t = None" by (simp only: unfold if_False)
    with assms show False by simp
  qed
  then obtain zs where zs: "t = ''Action: '' @ zs" by (auto elim: prefixE)
  then have "u = zs" unfolding u_def by simp
  with zs have t: "t = ''Action: '' @ u" by simp
  from assms p have "first_some ?f [0..<Suc ?N] = Some g"
    by (simp only: unfold if_True)
  then obtain k where k: "k \<in> set [0..<Suc ?N]" and fk: "?f k = Some g"
    by (blast dest: first_some_Some)
  from fk have tl: "match_items tail (drop k u) \<noteq> None" by (auto split: option.splits)
  have pv: "prefix ''Action Input: '' (dropWhile (\<lambda>c. c = nl) (drop k u))"
  proof (rule ccontr)
    assume "\<not> prefix ''Action Input: '' (dropWhile (\<lambda>c. c = nl) (drop k u))"
    then have "match_items tail (drop k u) = None"
      unfolding tail_def by (simp only: match_tail if_False)
    with tl show False by simp
  qed
  then obtain n w where v: "drop k u = replicate n nl @ ''Action Input: '' @ w"
    by (blast dest: newlines_then_prefix)
  from k have "k \<le> ?N" by auto
  then have "\<forall>x \<in> set (take k u). dot x" by (blast intro: take_within_takeWhile)
  then have nlX: "nl \<notin> set (take k u)" by (auto simp: dot_def)
  have "take k u @ drop k u = u" by (rule append_take_drop_id)
  then have "u = take k u @ replicate n nl @ ''Action Input: '' @ w" by (simp only: v)
  then have "t = ''Action: '' @ take k u @ replicate n nl @ ''Action Input: '' @ w"
    using t by (simp only:)
  with nlX show ?thesis by blast
qed

lemma match_action_exists:
  assumes nlX: "nl \<notin> set X"
  shows "match_items action_regex (''Action: '' @ X @ replicate n nl @ ''Action Input: '' @ w)
           \<noteq> None"
proof -
  let ?u = "X @ replicate n nl @ ''Action Input: '' @ w"
  let ?f = "\<lambda>k. case match_items
                    [Star True False (\<lambda>c. c = nl), Lit ''Action Input: '', Star True True dot]
                    (drop k ?u) of
               None \<Rightarrow> None
             | Some groups \<Rightarrow> Some (take k ?u # groups)"
  have p: "prefix ''Action: '' (''Action: '' @ ?u)" by simp
  have dr: "drop (length ''Action: '') (''Action: '' @ ?u) = ?u" by simp
  have "takeWhile dot ?u = X @ takeWhile dot (replicate n nl @ ''Action Input: '' @ w)"
    by (rule takeWhile_append2) (use nlX in \<open>auto simp: dot_def\<close>)
  then have le: "length X \<le> length (takeWhile dot ?u)" by simp
  have "drop (length X) ?u = replicate n nl @ ''Action Input: '' @ w" by simp
  then have hit: "?f (length X) \<noteq> None"
    by (simp only: tail_at_block option.case) simp
  from le have mem: "length X \<in> set [0..<Suc (length (takeWhile dot ?u))]"
    by (simp only: set_upt atLeastLessThan_iff) auto
  have "first_some ?f [0..<Suc (length (takeWhile dot ?u))] \<noteq> None"
    by (rule first_some_not_None[of "length X" "[0..<Suc (length (takeWhile dot ?u))]" ?f,
          OF mem hit])
  then show ?thesis by (simp only: match_action_unfold p dr if_True not_False_eq_True)
qed

lemma re_search_action_None_iff:
  "re_search action_regex s = None \<longleftrightarrow>
     \<not> (\<exists>pre X n w. s = pre @ ''Action: '' @ X @ replicate n nl @ ''Action Input: '' @ w
           \<and> nl \<notin> set X)"
proof
  assume none: "re_search action_regex s = None"
  show "\<not> (\<exists>pre X n w. s = pre @ ''Action: '' @ X @ replicate n nl @ ''Action Input: '' @ w
           \<and> nl \<notin> set X)"
  proof
    assume "\<exists>pre X n w. s = pre @ ''Action: '' @ X @ replicate n nl @ ''Action Input: '' @ w
           \<and> nl \<notin> set X"
    then obtain pre X n w
      where s: "s = pre @ ''Action: '' @ X @ replicate n nl @ ''Action Input: '' @ w"
        and nlX: "nl \<notin> set X" by blast
    from match_action_exists[OF nlX]
    have "re_search action_regex
        (pre @ ''Action: '' @ X @ replicate n nl @ ''Action Input: '' @ w) \<noteq> None"
      by (rule re_search_exists)
    with s none show False by simp
  qed
next
  assume no: "\<not> (\<exists>pre X n w. s = pre @ ''Action: '' @ X @ replicate n nl @ ''Action Input: '' @ w
           \<and> nl \<notin> set X)"
  show "re_search action_regex s = None"
  proof (rule ccontr)
    assume "re_search action_regex s \<noteq> None"
    then obtain g where "re_search action_regex s = Some g" by blast
    then obtain pre t where s: "s = pre @ t" and m: "match_items action_regex t = Some g"
      by (blast dest: re_search_Some)
    from match_action_Some[OF m] obtain X n w
      where "t = ''Action: '' @ X @ replicate n nl @ ''Action Input: '' @ w" "nl \<notin> set X"
      by blast
    with s have "s = pre @ ''Action: '' @ X @ replicate n nl @ ''Action Input: '' @ w
        \<and> nl \<notin> set X" by simp
    with no show False by blast
  qed
qed

lemma strip_snoc_space:
  assumes "py_isspace c"
  shows "strip (X @ [c]) = strip X"
proof (cases "\<forall>x \<in> set X. py_isspace x")
  case True
  then have "dropWhile py_isspace X = []" by (simp only: dropWhile_eq_Nil_conv)
  moreover from True assms have "\<forall>x \<in> set (X @ [c]). py_isspace x" by simp
  then have "dropWhile py_isspace (X @ [c]) = []" by (simp only: dropWhile_eq_Nil_conv)
  ultimately show ?thesis by (simp only: strip_def strip_where_def)
next
  case False
  then obtain x where "x \<in> set X" "\<not> py_isspace x" by blast
  then have "dropWhile py_isspace (X @ [c]) = dropWhile py_isspace X @ [c]"
    by (rule dropWhile_append1)
  with assms show ?thesis by (simp add: strip_def strip_where_def)
qed

section \<open>The final answer\<close>

text \<open>
  C1: when the model output contains the final-answer marker (\<open>ai_prefix\<close> followed by a
  colon), \<open>_extract_tool_and_input\<close> returns the pair of \<open>ai_prefix\<close> and the text after the
  marker, stripped of leading and trailing whitespace.  The text taken is the one after the
  last marker: no marker occurs in it.
\<close>

theorem final_answer_marker:
  assumes "sublist (ai_prefix @ '':'') llm_output"
  shows "\<exists>pre suf. llm_output = pre @ (ai_prefix @ '':'') @ suf
           \<and> \<not> sublist (ai_prefix @ '':'') suf
           \<and> extract_tool_and_input ai_prefix llm_output = Inr (ai_prefix, strip suf)"
proof -
  have "ai_prefix @ '':'' \<noteq> []" by simp
  from last_split_from[OF this assms, of "[]"]
  obtain pre suf where a: "llm_output = pre @ (ai_prefix @ '':'') @ suf"
    and b: "\<not> sublist (ai_prefix @ '':'') suf"
    and c: "last (split_from (ai_prefix @ '':'') [] llm_output) = suf" by blast
  have d: "extract_tool_and_input ai_prefix llm_output = Inr (ai_prefix, strip suf)"
    using extract_final_answer_eq[OF assms] by (simp only: c)
  from a b d show ?thesis by (intro exI conjI)
qed

theorem final_answer_marker_witness:
  "sublist (''AI'' @ '':'') (''Thought: done'' @ [nl] @ ''AI: hello '')
   \<and> (\<exists>pre suf. ''Thought: done'' @ [nl] @ ''AI: hello '' = pre @ (''AI'' @ '':'') @ suf
          \<and> \<not> sublist (''AI'' @ '':'') suf
          \<and> extract_tool_and_input ''AI'' (''Thought: done'' @ [nl] @ ''AI: hello '')
              = Inr (''AI'', strip suf))
   \<and> extract_tool_and_input ''AI'' (''Thought: done'' @ [nl] @ ''AI: hello '')
        = Inr (''AI'', ''hello'')"
proof -
  have h: "sublist (''AI'' @ '':'') (''Thought: done'' @ [nl] @ ''AI: hello '')"
    by code_simp
  have v: "extract_tool_and_input ''AI'' (''Thought: done'' @ [nl] @ ''AI: hello '')
        = Inr (''AI'', ''hello'')"
    by code_simp
  from h final_answer_marker[OF h] v show ?thesis by (intro conjI)
qed

section \<open>Actions\<close>

text \<open>
  C2, as stated, fails: the action input is stripped of spaces and then of double quotes
  only, so other whitespace around it stays.  Here the input \<open>cats\<close> is followed by a tab,
  and the tab is returned with it.
\<close>

theorem action_input_keeps_tab:
  "extract_tool_and_input ''AI'' (''Action: Search'' @ [nl] @ ''Action Input: cats'' @ [tab])
     = Inr (''Search'', ''cats'' @ [tab])
   \<and> extract_tool_and_input ''AI'' (''Action: Search'' @ [nl] @ ''Action Input: cats'' @ [tab])
     \<noteq> Inr (strip ''Search'', claimed_action_input (''cats'' @ [tab]))
   \<and> claimed_action_input (''cats'' @ [tab]) = ''cats''
   \<and> strip_chars [dquote] (strip (''cats'' @ [tab])) = ''cats''"
  by code_simp

text \<open>
  C2, amended: when the output has no final-answer marker and holds an \<open>Action: X\<close> line
  followed by an \<open>Action Input: Y\<close> line (the first \<open>Action: \<close> of the output, \<open>X\<close> and
  \<open>Y\<close> within their lines), the result is \<open>X\<close> stripped of whitespace and \<open>Y\<close> stripped of
  its leading and trailing spaces and then of its leading and trailing double quotes.
\<close>

theorem action_block_dispatch:
  assumes "llm_output =
      pre @ ''Action: '' @ X @ replicate (Suc m) nl @ ''Action Input: '' @ Y @ rest"
    and "\<not> sublist (ai_prefix @ '':'') llm_output"
    and "\<not> sublist ''Action: '' pre"
    and "nl \<notin> set X" and "\<not> sublist ''Action Input: '' X"
    and "nl \<notin> set Y" and "rest = [] \<or> hd rest = nl"
  shows "extract_tool_and_input ai_prefix llm_output
         = Inr (strip X, strip_chars [dquote] (strip_chars '' '' Y))"
  unfolding assms(1)
  by (rule extract_action_block) (use assms in simp_all)

theorem action_block_dispatch_witness:
  "extract_tool_and_input ''AI''
     ((''Thought: look it up'' @ [nl]) @ ''Action: '' @ '' Search '' @ replicate (Suc 0) nl
        @ ''Action Input: '' @ ('' '' @ [dquote] @ ''cats '' @ [dquote] @ '' '')
        @ (nl # ''Observation: ''))
   = Inr (''Search'', ''cats '')"
proof -
  have 1: "\<not> sublist (''AI'' @ '':'')
     ((''Thought: look it up'' @ [nl]) @ ''Action: '' @ '' Search '' @ replicate (Suc 0) nl
        @ ''Action Input: '' @ ('' '' @ [dquote] @ ''cats '' @ [dquote] @ '' '')
        @ (nl # ''Observation: ''))" by code_simp
  have 2: "\<not> sublist ''Action: '' (''Thought: look it up'' @ [nl])" by code_simp
  have 3: "nl \<notin> set '' Search ''" by code_simp
  have 4: "\<not> sublist ''Action Input: '' '' Search ''" by code_simp
  have 5: "nl \<notin> set ('' '' @ [dquote] @ ''cats '' @ [dquote] @ '' '')" by code_simp
  have 6: "nl # ''Observation: '' = [] \<or> hd (nl # ''Observation: '') = nl" by simp
  have 7: "strip '' Search '' = ''Search''" by code_simp
  have 8: "strip_chars [dquote] (strip_chars '' '' ('' '' @ [dquote] @ ''cats '' @ [dquote] @ '' ''))
      = ''cats ''" by code_simp
  from action_block_dispatch[OF refl 1 2 3 4 5 6] show ?thesis by (simp only: 7 8)
qed

text \<open>
  C3: when the output holds neither the final-answer marker nor the action pattern
  (\<open>Action: \<close>, a run without newline, any number of newlines, \<open>Action Input: \<close>), the
  function raises \<open>ValueError\<close>: the error is its result, nothing is returned in its place.
\<close>

theorem parse_error:
  assumes "\<not> sublist (ai_prefix @ '':'') llm_output"
    and "\<not> (\<exists>pre X n w. llm_output =
                 pre @ ''Action: '' @ X @ replicate n nl @ ''Action Input: '' @ w
               \<and> nl \<notin> set X)"
  shows "extract_tool_and_input ai_prefix llm_output
         = Inl (ValueError (''Could not parse LLM output: '' @ [CHR 0x60] @ llm_output @ [CHR 0x60]))"
proof -
  from assms(2) have "re_search action_regex llm_output = None"
    by (rule re_search_action_None_iff[THEN iffD2])
  then show ?thesis
    unfolding extract_tool_and_input_def if_not_P[OF assms(1)] by (simp only: option.case)
qed

theorem parse_error_witness:
  "extract_tool_and_input ''AI'' ''Thought: I do not know''
   = Inl (ValueError (''Could not parse LLM output: '' @ [CHR 0x60] @ ''Thought: I do not know''
            @ [CHR 0x60]))"
proof -
  have 1: "\<not> sublist (''AI'' @ '':'') ''Thought: I do not know''" by code_simp
  have 2: "\<not> (\<exists>pre X n w. ''Thought: I do not know'' =
                 pre @ ''Action: '' @ X @ replicate n nl @ ''Action Input: '' @ w
               \<and> nl \<notin> set X)"
  proof
    assume "\<exists>pre X n w. ''Thought: I do not know'' =
                 pre @ ''Action: '' @ X @ replicate n nl @ ''Action Input: '' @ w
               \<and> nl \<notin> set X"
    then obtain pre X n w where "''Thought: I do not know'' =
                 pre @ ''Action: '' @ X @ replicate n nl @ ''Action Input: '' @ w" by blast
    then have "set ''Thought: I do not know'' =
                 set (pre @ ''Action: '' @ X @ replicate n nl @ ''Action Input: '' @ w)"
      by (rule arg_cong)
    then have "CHR ''A'' \<in> set ''Thought: I do not know''" by simp
    then show False by simp
  qed
  from parse_error[OF 1 2] show ?thesis .
qed

text \<open>
  C6: the final-answer check comes first.  When the output holds the marker and an action
  block as well, so that the action pattern would match, the result is the final answer:
  its first component is \<open>ai_prefix\<close> and its second is computed from the marker alone.
\<close>

theorem final_answer_precedes_action:
  assumes "llm_output = pre @ ''Action: '' @ X @ replicate n nl @ ''Action Input: '' @ w"
    and "nl \<notin> set X"
    and "sublist (ai_prefix @ '':'') llm_output"
  shows "re_search action_regex llm_output \<noteq> None
         \<and> extract_tool_and_input ai_prefix llm_output
           = Inr (ai_prefix, strip (last (split_from (ai_prefix @ '':'') [] llm_output)))"
proof
  show "re_search action_regex llm_output \<noteq> None"
    unfolding assms(1) by (rule re_search_exists) (rule match_action_exists[OF assms(2)])
  show "extract_tool_and_input ai_prefix llm_output
           = Inr (ai_prefix, strip (last (split_from (ai_prefix @ '':'') [] llm_output)))"
    using assms(3) by (rule extract_final_answer_eq)
qed

theorem final_answer_precedes_action_witness:
  "re_search action_regex
     ([] @ ''Action: '' @ ''Search'' @ replicate 1 nl @ ''Action Input: '' @ (''cats'' @ [nl] @ ''AI: done ''))
     \<noteq> None
   \<and> extract_tool_and_input ''AI''
     ([] @ ''Action: '' @ ''Search'' @ replicate 1 nl @ ''Action Input: '' @ (''cats'' @ [nl] @ ''AI: done ''))
     = Inr (''AI'', ''done'')"
proof -
  have 1: "nl \<notin> set ''Search''" by code_simp
  have 2: "sublist (''AI'' @ '':'')
     ([] @ ''Action: '' @ ''Search'' @ replicate 1 nl @ ''Action Input: '' @ (''cats'' @ [nl] @ ''AI: done ''))"
    by code_simp
  have 3: "strip (last (split_from (''AI'' @ '':'') []
     ([] @ ''Action: '' @ ''Search'' @ replicate 1 nl @ ''Action Input: '' @ (''cats'' @ [nl] @ ''AI: done ''))))
     = ''done''" by code_simp
  note t = final_answer_precedes_action[OF refl 1 2]
  from t have a: "re_search action_regex
     ([] @ ''Action: '' @ ''Search'' @ replicate 1 nl @ ''Action Input: '' @ (''cats'' @ [nl] @ ''AI: done ''))
     \<noteq> None" by (rule conjunct1)
  from t have "extract_tool_and_input ''AI''
     ([] @ ''Action: '' @ ''Search'' @ replicate 1 nl @ ''Action Input: '' @ (''cats'' @ [nl] @ ''AI: done ''))
     = Inr (''AI'', strip (last (split_from (''AI'' @ '':'') []
     ([] @ ''Action: '' @ ''Search'' @ replicate 1 nl @ ''Action Input: '' @ (''cats'' @ [nl] @ ''AI: done '')))))"
    by (rule conjunct2)
  then have b: "extract_tool_and_input ''AI''
     ([] @ ''Action: '' @ ''Search'' @ replicate 1 nl @ ''Action Input: '' @ (''cats'' @ [nl] @ ''AI: done ''))
     = Inr (''AI'', ''done'')" by (simp only: 3)
  from a b show ?thesis by (rule conjI)
qed

text \<open>
  C8: the action input stops at the end of its line.  When the text after
  \<open>Action Input: \<close> runs over several lines, the input returned is its first line \<open>Y\<close>,
  stripped; what follows the first newline has no part in the result.
\<close>

theorem action_input_first_line:
  assumes "llm_output =
      pre @ ''Action: '' @ X @ replicate n nl @ ''Action Input: '' @ Y @ nl # later"
    and "\<not> sublist (ai_prefix @ '':'') llm_output"
    and "\<not> sublist ''Action: '' pre"
    and "nl \<notin> set X" and "\<not> sublist ''Action Input: '' X"
    and "nl \<notin> set Y"
  shows "extract_tool_and_input ai_prefix llm_output
         = Inr (strip X, strip_chars [dquote] (strip_chars '' '' Y))"
  unfolding assms(1)
  by (rule extract_action_block) (use assms in simp_all)

theorem action_input_first_line_witness:
  "extract_tool_and_input ''AI''
     ([] @ ''Action: '' @ ''Search'' @ replicate 1 nl @ ''Action Input: '' @ ''cats''
        @ nl # (''and dogs'' @ [nl] @ ''and birds''))
   = Inr (''Search'', ''cats'')"
proof -
  have 1: "\<not> sublist (''AI'' @ '':'')
     ([] @ ''Action: '' @ ''Search'' @ replicate 1 nl @ ''Action Input: '' @ ''cats''
        @ nl # (''and dogs'' @ [nl] @ ''and birds''))" by code_simp
  have 2: "\<not> sublist ''Action: '' []" by code_simp
  have 3: "nl \<notin> set ''Search''" by code_simp
  have 4: "\<not> sublist ''Action Input: '' ''Search''" by code_simp
  have 5: "nl \<notin> set ''cats''" by code_simp
  have 7: "strip ''Search'' = ''Search''" by code_simp
  have 8: "strip_chars [dquote] (strip_chars '' '' ''cats'') = ''cats''" by code_simp
  from action_input_first_line[OF refl 1 2 3 4 5] show ?thesis by (simp only: 7 8)
qed

text \<open>
  C9: the action pattern matches on one line too.  For an output
  \<open>Action: X Action Input: Y\<close> with no newline between the two fields the function
  returns \<open>X\<close> and \<open>Y\<close>, stripped, and no parse error.
\<close>

theorem action_single_line:
  assumes "llm_output = ''Action: '' @ X @ '' Action Input: '' @ Y"
    and "\<not> sublist (ai_prefix @ '':'') llm_output"
    and "nl \<notin> set X" and "\<not> sublist ''Action Input: '' (X @ '' '')"
    and "nl \<notin> set Y"
  shows "extract_tool_and_input ai_prefix llm_output
         = Inr (strip X, strip_chars [dquote] (strip_chars '' '' Y))"
proof -
  have form: "llm_output =
      [] @ ''Action: '' @ (X @ '' '') @ replicate 0 nl @ ''Action Input: '' @ Y @ []"
    by (simp add: assms(1))
  have "extract_tool_and_input ai_prefix
      ([] @ ''Action: '' @ (X @ '' '') @ replicate 0 nl @ ''Action Input: '' @ Y @ [])
      = Inr (strip (X @ '' ''), strip_chars [dquote] (strip_chars '' '' Y))"
  proof (rule extract_action_block)
    show "\<not> sublist (ai_prefix @ '':'')
        ([] @ ''Action: '' @ (X @ '' '') @ replicate 0 nl @ ''Action Input: '' @ Y @ [])"
      using assms(2) by (simp only: form not_False_eq_True)
    show "\<not> sublist ''Action: '' []" by simp
    show "nl \<notin> set (X @ '' '')" using assms(3) by (simp add: nl_def)
    show "\<not> sublist ''Action Input: '' (X @ '' '')" by (rule assms(4))
    show "nl \<notin> set Y" by (rule assms(5))
    show "[] = [] \<or> hd [] = nl" by simp
  qed
  moreover have "strip (X @ '' '') = strip X"
    by (rule strip_snoc_space) (simp add: py_isspace_def)
  ultimately show ?thesis by (simp only: form)
qed

theorem action_single_line_witness:
  "extract_tool_and_input ''AI'' (''Action: '' @ ''Search'' @ '' Action Input: '' @ ''cats'')
   = Inr (''Search'', ''cats'')"
proof -
  have 1: "\<not> sublist (''AI'' @ '':'') (''Action: '' @ ''Search'' @ '' Action Input: '' @ ''cats'')"
    by code_simp
  have 3: "nl \<notin> set ''Search''" by code_simp
  have 4: "\<not> sublist ''Action Input: '' (''Search'' @ '' '')" by code_simp
  have 5: "nl \<notin> set ''cats''" by code_simp
  have 7: "strip ''Search'' = ''Search''" by code_simp
  have 8: "strip_chars [dquote] (strip_chars '' '' ''cats'') = ''cats''" by code_simp
  from action_single_line[OF refl 1 3 4 5] show ?thesis by (simp only: 7 8)
qed

section \<open>Running the tools\<close>

text \<open>
  C5: asynchronous invocation is unsupported by every tool: the coroutine of \<open>_arun\<close> raises
  \<open>NotImplementedError\<close> for every input and never returns a value.
\<close>

theorem arun_not_implemented:
  "GoogleSearch_arun query = Inl (NotImplementedError ''GoogleSearchRun does not support async'')
   \<and> GoogleSearchResults_arun query
        = Inl (NotImplementedError ''GoogleSearchRun does not support async'')
   \<and> BrowserTool_arun url = Inl (NotImplementedError ''not support run this tool in async'')
   \<and> isl (GoogleSearch_arun query) \<and> isl (GoogleSearchResults_arun query)
   \<and> isl (BrowserTool_arun url)"
  by (simp add: GoogleSearch_arun_def GoogleSearchResults_arun_def BrowserTool_arun_def)

text \<open>
  C10: \<open>GoogleSearchResults._run\<close> returns \<open>str\<close> of the list that
  \<open>api_wrapper.results(query, num_results)\<close> produces; \<open>num_results\<close> is 3 unless the
  field is overridden, so that is the number of results requested.
\<close>

theorem GoogleSearchResults_run_num_results:
  "num_results (GoogleSearchResults_init w) = 3
   \<and> GoogleSearchResults_run str_of (GoogleSearchResults_init w) query
        = (case api_results w query 3 of Inl e \<Rightarrow> Inl e | Inr rs \<Rightarrow> Inr (str_of rs))
   \<and> GoogleSearchResults_run str_of ((GoogleSearchResults_init w)\<lparr>num_results := k\<rparr>) query
        = (case api_results w query k of Inl e \<Rightarrow> Inl e | Inr rs \<Rightarrow> Inr (str_of rs))"
  by (simp add: GoogleSearchResults_run_def GoogleSearchResults_init_def)

text \<open>
  C4, as stated for every tool, fails for the search tool: \<open>GoogleSearch._run\<close> has no
  handler, so an error raised by the API client is raised by \<open>_run\<close>.
\<close>

theorem GoogleSearch_run_raises:
  "GoogleSearch_run
     \<lparr>api_run = (\<lambda>q. Inl (OtherException ''HTTPError'' ''quota exceeded'')),
      api_results = (\<lambda>q n. Inr ([] :: unit list))\<rparr> ''cats''
   = Inl (OtherException ''HTTPError'' ''quota exceeded'')"
  by (simp add: GoogleSearch_run_def)

text \<open>
  C4, amended: \<open>BrowserTool._run\<close> catches every error derived from \<open>Exception\<close> that the
  HTTP client or \<open>filter_text\<close> raises, logs it and returns its \<open>repr\<close>; so
  \<open>BrowserTool._run\<close> raises nothing derived from \<open>Exception\<close>.
\<close>

theorem BrowserTool_run_catches:
  "(get url = Inl e \<and> is_Exception e \<longrightarrow>
      BrowserTool_run str_of repr_of get filter_text url
        = (Inr (repr_of e), [Error (''[browser] '' @ str_of e)]))
   \<and> (get url = Inr html \<and> filter_text html = Inl e \<and> is_Exception e \<longrightarrow>
      BrowserTool_run str_of repr_of get filter_text url
        = (Inr (repr_of e), [Error (''[browser] '' @ str_of e)]))
   \<and> (fst (BrowserTool_run str_of repr_of get filter_text url) = Inl e' \<longrightarrow> \<not> is_Exception e')"
  by (auto simp: BrowserTool_run_def browser_except_def split: sum.splits if_splits)

theorem BrowserTool_run_catches_witness:
  "BrowserTool_run (\<lambda>e. ''refused'') (\<lambda>e. ''ConnectionError(refused)'')
     (\<lambda>u. Inl (OtherException ''ConnectionError'' ''refused'')) Inr ''http://example.org''
   = (Inr ''ConnectionError(refused)'', [Error ''[browser] refused''])"
  using BrowserTool_run_catches[of "\<lambda>u. Inl (OtherException ''ConnectionError'' ''refused'')"
      "''http://example.org''" "OtherException ''ConnectionError'' ''refused''"
      "\<lambda>e. ''refused''" "\<lambda>e. ''ConnectionError(refused)''" Inr]
  by simp

end
